theory Spec2Isabelle
  imports Main
begin

section \<open>The allocation tracker of objtrack.c\<close>

text \<open>
  The file objtrack.c keeps one global pointer \<^verbatim>\<open>_allocVector\<close> to a heap-allocated
  \<^verbatim>\<open>AllocVector\<close> (a growable array of \<^verbatim>\<open>jobject*\<close>) and has two entry points,
  \<^verbatim>\<open>trackObject\<close> and \<^verbatim>\<open>freeObjects\<close>. The embedding below follows the C text
  statement by statement on an LP64 platform (the one a 64-bit JVM loads the library
  on): \<^verbatim>\<open>int\<close> has 32 bits, \<^verbatim>\<open>size_t\<close> has 64 bits and a pointer takes 8 bytes.

  \<^item> A pointer is \<open>None\<close> when it is \<^verbatim>\<open>NULL\<close> and \<open>Some\<close> of what it points to otherwise;
    each heap object has a single owner in this file, so no separate store is needed.
  \<^item> \<^verbatim>\<open>malloc\<close> and \<^verbatim>\<open>realloc\<close> may fail. Whether the k-th request of a run is granted
    is read from an oracle \<open>ok :: nat \<Rightarrow> bool\<close>; the state counts the requests made.
  \<^item> Where the C standard leaves the behaviour undefined (a store through \<^verbatim>\<open>NULL\<close>, an
    access outside an allocated block, passing an indeterminate value to \<^verbatim>\<open>free\<close>, signed
    overflow of the \<^verbatim>\<open>int\<close> loop counter) the model returns \<open>Inl\<close> of the kind of
    undefined behaviour and nothing else: no state and no trace survive it. \<open>Inr\<close> is a
    normal return.
  \<^item> Every call of \<^verbatim>\<open>malloc\<close>, \<^verbatim>\<open>realloc\<close> and \<^verbatim>\<open>free\<close>, and every store of \<^verbatim>\<open>NULL\<close> made
    by \<^verbatim>\<open>freeObjects\<close>, is appended to a trace, in program order. The trace is what a
    test double of the C library would record.
  \<^item> A handle is the address a \<^verbatim>\<open>jobject*\<close> holds, \<open>0\<close> for \<^verbatim>\<open>NULL\<close>. Whether it points to
    a live heap block is the caller's business: \<^verbatim>\<open>free\<close> of a handle is recorded in the
    trace and has no other effect on the tracker.
  \<^item> The field \<^verbatim>\<open>size\<close> of \<^verbatim>\<open>AllocVector\<close> is called \<open>size'\<close>.
\<close>

subsection \<open>Platform constants\<close>

type_synonym jobject_ptr = nat

definition NULL :: jobject_ptr where
  "NULL = 0"

definition INT_MAX :: nat where
  "INT_MAX = 2147483647"

definition SIZE_MAX :: nat where
  "SIZE_MAX = 18446744073709551615"

definition to_size_t :: "nat \<Rightarrow> nat" where
  \<comment> \<open>unsigned arithmetic in \<^verbatim>\<open>size_t\<close> is reduced modulo \<open>SIZE_MAX + 1\<close>\<close>
  "to_size_t n = n mod (SIZE_MAX + 1)"

definition sizeof_ptr :: nat where
  \<comment> \<open>\<^verbatim>\<open>sizeof(jobject*)\<close>\<close>
  "sizeof_ptr = 8"

definition sizeof_AllocVector :: nat where
  \<comment> \<open>\<^verbatim>\<open>sizeof(AllocVector)\<close>: a pointer and two \<^verbatim>\<open>size_t\<close>\<close>
  "sizeof_AllocVector = 24"

subsection \<open>Data\<close>

text \<open>
  A block of \<^verbatim>\<open>jobject*\<close> slots as \<^verbatim>\<open>malloc\<close> returns it: a slot is \<open>None\<close> until the
  program has stored a pointer in it (its value is indeterminate).
\<close>

type_synonym block = "jobject_ptr option list"

record AllocVector =
  vector :: "block option"
  used :: nat
  size' :: nat

datatype event =
    Malloc nat
  | Realloc nat
  | Free jobject_ptr
  | SlotNull nat
  | FreeVector
  | VectorNull
  | FreeAllocVector
  | AllocVectorNull

datatype undefined_behaviour =
    NullDereference
  | OutOfBounds
  | IndeterminateValue
  | SignedOverflow

text \<open>
  The program state: the global \<^verbatim>\<open>_allocVector\<close> (initially \<^verbatim>\<open>NULL\<close>), the number of
  allocation requests made so far, and the trace.
\<close>

record state =
  allocVector :: "AllocVector option"
  requests :: nat
  trace :: "event list"

definition initial :: state where
  "initial = \<lparr>allocVector = None, requests = 0, trace = []\<rparr>"

subsection \<open>The C library\<close>

definition malloc :: "(nat \<Rightarrow> bool) \<Rightarrow> nat \<Rightarrow> state \<Rightarrow> bool \<times> state" where
  "malloc ok n s =
     (ok (requests s), s\<lparr>requests := Suc (requests s), trace := trace s @ [Malloc n]\<rparr>)"

definition realloc :: "(nat \<Rightarrow> bool) \<Rightarrow> nat \<Rightarrow> state \<Rightarrow> bool \<times> state" where
  "realloc ok n s =
     (ok (requests s), s\<lparr>requests := Suc (requests s), trace := trace s @ [Realloc n]\<rparr>)"

definition new_block :: "nat \<Rightarrow> block" where
  \<comment> \<open>the slots of a fresh block of \<open>n\<close> bytes\<close>
  "new_block n = replicate (n div sizeof_ptr) None"

definition resize_block :: "nat \<Rightarrow> block \<Rightarrow> block" where
  \<comment> \<open>\<^verbatim>\<open>realloc\<close> keeps the contents up to the lesser of the old and the new size\<close>
  "resize_block n xs =
     take (n div sizeof_ptr) xs @ replicate (n div sizeof_ptr - length xs) None"

subsection \<open>initAllocVector, trackObject\<close>

definition initAllocVector :: "(nat \<Rightarrow> bool) \<Rightarrow> state \<Rightarrow> undefined_behaviour + state" where
  "initAllocVector ok s =
     (let initialSize = 128;
          (got, s1) = malloc ok sizeof_AllocVector s
      in if \<not> got then Inl NullDereference
         else
           let nbytes = to_size_t (initialSize * sizeof_ptr);
               (gotv, s2) = malloc ok nbytes s1
           in Inr (s2\<lparr>allocVector :=
                        Some \<lparr>vector = (if gotv then Some (new_block nbytes) else None),
                              used = 0,
                              size' = initialSize\<rparr>\<rparr>))"

definition needs_init :: "state \<Rightarrow> bool" where
  \<comment> \<open>\<^verbatim>\<open>_allocVector == NULL || _allocVector->vector == NULL\<close>\<close>
  "needs_init s = (case allocVector s of None \<Rightarrow> True | Some av \<Rightarrow> vector av = None)"

definition grow :: "(nat \<Rightarrow> bool) \<Rightarrow> AllocVector \<Rightarrow> state \<Rightarrow> state" where
  \<comment> \<open>the body of \<^verbatim>\<open>if (_allocVector->used == _allocVector->size)\<close>\<close>
  "grow ok av s =
     (let sz = to_size_t (size' av * 2);
          nbytes = to_size_t (sz * sizeof_ptr);
          (got, s1) = realloc ok nbytes s;
          v = (if got
               then Some (case vector av of
                            None \<Rightarrow> new_block nbytes
                          | Some xs \<Rightarrow> resize_block nbytes xs)
               else None)
      in s1\<lparr>allocVector := Some (av\<lparr>size' := sz, vector := v\<rparr>)\<rparr>)"

definition store :: "jobject_ptr \<Rightarrow> AllocVector \<Rightarrow> state \<Rightarrow> undefined_behaviour + state" where
  \<comment> \<open>\<^verbatim>\<open>_allocVector->vector[_allocVector->used++] = obj\<close>\<close>
  "store obj av s =
     (case vector av of
        None \<Rightarrow> Inl NullDereference
      | Some xs \<Rightarrow>
          if used av < length xs
          then Inr (s\<lparr>allocVector :=
                        Some (av\<lparr>vector := Some (xs[used av := Some obj]),
                                 used := to_size_t (used av + 1)\<rparr>)\<rparr>)
          else Inl OutOfBounds)"

definition trackObject ::
  "(nat \<Rightarrow> bool) \<Rightarrow> jobject_ptr \<Rightarrow> state \<Rightarrow> undefined_behaviour + state" where
  "trackObject ok obj s =
     (case (if needs_init s then initAllocVector ok s else Inr s) of
        Inl u \<Rightarrow> Inl u
      | Inr s1 \<Rightarrow>
          (case allocVector s1 of
             None \<Rightarrow> Inl NullDereference
           | Some av \<Rightarrow>
               let s2 = (if used av = size' av then grow ok av s1 else s1)
               in (case allocVector s2 of
                     None \<Rightarrow> Inl NullDereference
                   | Some av2 \<Rightarrow> store obj av2 s2)))"

subsection \<open>freeObjects\<close>

text \<open>
  The loop \<^verbatim>\<open>for (int i=0; i < _allocVector->used; i++)\<close>, started at \<open>i\<close>. The counter
  is an \<^verbatim>\<open>int\<close> that never becomes negative, so it is a natural number here; the
  comparison converts it to \<^verbatim>\<open>size_t\<close> without changing its value. One round reads slot
  \<open>i\<close>, passes the pointer to \<^verbatim>\<open>free\<close>, stores \<^verbatim>\<open>NULL\<close> in the slot and increments \<open>i\<close>;
  the increment of \<open>INT_MAX\<close> is a signed overflow. (On the usual hardware the counter
  then wraps to a negative value, which the comparison converts to a \<^verbatim>\<open>size_t\<close> above
  every \<^verbatim>\<open>used\<close>, and the loop stops with the remaining slots untouched; the C standard
  leaves the behaviour undefined, and so does the model.)
\<close>

function free_loop ::
  "nat \<Rightarrow> AllocVector \<Rightarrow> event list \<Rightarrow> undefined_behaviour + (AllocVector \<times> event list)" where
  "free_loop i av tr =
     (if i < used av then
        (case vector av of
           None \<Rightarrow> Inl NullDereference
         | Some xs \<Rightarrow>
             if length xs \<le> i then Inl OutOfBounds
             else
               (case xs ! i of
                  None \<Rightarrow> Inl IndeterminateValue
                | Some p \<Rightarrow>
                    if i = INT_MAX then Inl SignedOverflow
                    else free_loop (Suc i)
                           (av\<lparr>vector := Some (xs[i := Some NULL])\<rparr>)
                           (tr @ [Free p, SlotNull i])))
      else Inr (av, tr))"
  by pat_completeness auto
termination
  by (relation "measure (\<lambda>(i, av, tr). used av - i)") auto

definition freeObjects :: "state \<Rightarrow> undefined_behaviour + state" where
  "freeObjects s =
     (case allocVector s of
        None \<Rightarrow> Inr s
      | Some av \<Rightarrow>
          (case free_loop 0 av (trace s) of
             Inl u \<Rightarrow> Inl u
           | Inr (av1, tr) \<Rightarrow>
               Inr (s\<lparr>allocVector := None,
                      trace := tr @ [FreeVector, VectorNull, FreeAllocVector, AllocVectorNull]\<rparr>)))"

subsection \<open>Sequences of calls\<close>

datatype call = Track jobject_ptr | ReleaseAll

definition step :: "(nat \<Rightarrow> bool) \<Rightarrow> call \<Rightarrow> state \<Rightarrow> undefined_behaviour + state" where
  "step ok c s = (case c of Track obj \<Rightarrow> trackObject ok obj s | ReleaseAll \<Rightarrow> freeObjects s)"

fun run :: "(nat \<Rightarrow> bool) \<Rightarrow> call list \<Rightarrow> state \<Rightarrow> undefined_behaviour + state" where
  "run ok [] s = Inr s"
| "run ok (c # cs) s = (case step ok c s of Inl u \<Rightarrow> Inl u | Inr s1 \<Rightarrow> run ok cs s1)"

definition granted :: "nat \<Rightarrow> bool" where
  \<comment> \<open>the allocator that grants every request\<close>
  "granted k = True"

definition refused :: "nat \<Rightarrow> bool" where
  \<comment> \<open>the allocator that is out of memory\<close>
  "refused k = False"

subsection \<open>Observations\<close>

fun released :: "event list \<Rightarrow> jobject_ptr list" where
  "released [] = []"
| "released (Free p # es) = p # released es"
| "released (e # es) = released es"

fun growths :: "event list \<Rightarrow> nat" where
  "growths [] = 0"
| "growths (Realloc n # es) = Suc (growths es)"
| "growths (e # es) = growths es"

fun slot_events :: "nat \<Rightarrow> jobject_ptr list \<Rightarrow> event list" where
  \<comment> \<open>what the loop of \<^verbatim>\<open>freeObjects\<close> does to slots \<open>i\<close>, \<open>i + 1\<close>, ... holding \<open>ps\<close>\<close>
  "slot_events i [] = []"
| "slot_events i (p # ps) = Free p # SlotNull i # slot_events (Suc i) ps"

definition registered :: "state \<Rightarrow> jobject_ptr option list" where
  \<comment> \<open>the slots \<open>0 ..< used\<close> of the vector; empty when there is no tracker\<close>
  "registered s =
     (case allocVector s of
        None \<Rightarrow> []
      | Some av \<Rightarrow> (case vector av of None \<Rightarrow> [] | Some xs \<Rightarrow> take (used av) xs))"

definition well_formed :: "state \<Rightarrow> bool" where
  \<comment> \<open>what holds of the tracker between two calls\<close>
  "well_formed s =
     (case allocVector s of
        None \<Rightarrow> True
      | Some av \<Rightarrow>
          (case vector av of
             None \<Rightarrow> False
           | Some xs \<Rightarrow>
               length xs = size' av \<and> used av \<le> size' av \<and> 0 < size' av \<and>
               size' av * sizeof_ptr \<le> SIZE_MAX \<and> None \<notin> set (take (used av) xs)))"

definition request_refused :: "(nat \<Rightarrow> bool) \<Rightarrow> state \<Rightarrow> bool" where
  \<comment> \<open>the allocator refuses a request that \<^verbatim>\<open>trackObject\<close> makes when called in \<open>s\<close>:
      one of the two \<^verbatim>\<open>malloc\<close> calls of \<^verbatim>\<open>initAllocVector\<close>, or the \<^verbatim>\<open>realloc\<close>\<close>
  "request_refused ok s =
     (if needs_init s then \<not> ok (requests s) \<or> \<not> ok (Suc (requests s))
      else (case allocVector s of
              None \<Rightarrow> False
            | Some av \<Rightarrow> used av = size' av \<and> \<not> ok (requests s)))"

definition within_capacity :: "state \<Rightarrow> bool" where
  \<comment> \<open>the invariant \<open>0 \<le> used \<le> size\<close> of a tracker, if there is one\<close>
  "within_capacity s =
     (case allocVector s of None \<Rightarrow> True | Some av \<Rightarrow> 0 \<le> used av \<and> used av \<le> size' av)"

section \<open>Auxiliary facts\<close>

subsection \<open>One call of trackObject\<close>

text \<open>
  The outcome of \<^verbatim>\<open>trackObject\<close> in each of its three situations: no tracker yet, room
  left, vector full. \<open>trackObject_cases\<close> collects them: in a well-formed state these
  are the only ways for the call to return.
\<close>

lemma to_size_t_id: "n \<le> SIZE_MAX \<Longrightarrow> to_size_t n = n"
  by (simp add: to_size_t_def)

lemma fresh_slots: "(replicate 128 y)[0 := x] = x # replicate 127 y"
proof -
  have "replicate 128 y = y # replicate 127 y"
    using replicate_Suc [of 127 y] by simp
  then show ?thesis by simp
qed

lemma trackObject_init:
  assumes "needs_init s" "ok (requests s)" "ok (Suc (requests s))"
  shows "trackObject ok obj s =
           Inr (s\<lparr>allocVector := Some \<lparr>vector = Some (Some obj # replicate 127 None), used = 1, size' = 128\<rparr>,
                requests := requests s + 2,
                trace := trace s @ [Malloc 24, Malloc 1024]\<rparr>)"
  using assms
  by (simp add: trackObject_def initAllocVector_def malloc_def store_def new_block_def
      to_size_t_def SIZE_MAX_def sizeof_ptr_def sizeof_AllocVector_def Let_def fresh_slots)

lemma trackObject_init_refused:
  assumes "needs_init s" "\<not> ok (requests s) \<or> \<not> ok (Suc (requests s))"
  shows "trackObject ok obj s = Inl NullDereference"
  using assms
  by (auto simp add: trackObject_def initAllocVector_def malloc_def store_def Let_def)

lemma well_formed_active:
  assumes "well_formed s" "allocVector s = Some av"
  obtains xs where "vector av = Some xs" "length xs = size' av" "used av \<le> size' av"
    "0 < size' av" "size' av * 8 \<le> SIZE_MAX" "None \<notin> set (take (used av) xs)"
  using assms by (auto simp add: well_formed_def sizeof_ptr_def split: option.splits)

lemma trackObject_room:
  assumes "allocVector s = Some av" "vector av = Some xs" "used av \<noteq> size' av"
    "used av < length xs" "length xs \<le> SIZE_MAX"
  shows "trackObject ok obj s =
           Inr (s\<lparr>allocVector := Some (av\<lparr>vector := Some (xs[used av := Some obj]),
                                           used := used av + 1\<rparr>)\<rparr>)"
  using assms
  by (simp add: trackObject_def needs_init_def store_def to_size_t_id)

lemma trackObject_full_refused:
  assumes "allocVector s = Some av" "vector av = Some xs" "used av = size' av"
    "\<not> ok (requests s)"
  shows "trackObject ok obj s = Inl NullDereference"
  using assms
  by (simp add: trackObject_def needs_init_def grow_def realloc_def store_def Let_def)

lemma trackObject_full:
  assumes "allocVector s = Some av" "vector av = Some xs" "used av = size' av"
    "length xs = size' av" "0 < size' av" "size' av * 16 \<le> SIZE_MAX" "ok (requests s)"
  shows "trackObject ok obj s =
           Inr (s\<lparr>allocVector :=
                     Some (av\<lparr>vector := Some ((xs @ replicate (size' av) None)[used av := Some obj]),
                              used := used av + 1, size' := 2 * size' av\<rparr>),
                   requests := Suc (requests s),
                   trace := trace s @ [Realloc (16 * size' av)]\<rparr>)"
proof -
  have a: "to_size_t (size' av * 2) = size' av * 2"
    using assms(6) by (intro to_size_t_id) simp
  have b: "to_size_t (size' av * 16) = size' av * 16"
    using assms(6) by (simp add: to_size_t_id)
  have c: "to_size_t (Suc (size' av)) = Suc (size' av)"
    using assms(5,6) by (intro to_size_t_id) linarith
  show ?thesis
    using assms
    by (simp add: trackObject_def needs_init_def grow_def realloc_def store_def Let_def
        a b c sizeof_ptr_def resize_block_def mult.commute)
qed

lemma trackObject_full_too_large:
  assumes "allocVector s = Some av" "vector av = Some xs" "used av = size' av"
    "length xs = size' av" "size' av * 8 \<le> SIZE_MAX" "SIZE_MAX < size' av * 16"
  shows "\<exists>u. trackObject ok obj s = Inl u"
proof -
  have a: "to_size_t (size' av * 2) = size' av * 2"
    using assms(5) by (intro to_size_t_id) simp
  have b: "to_size_t (size' av * 16) div 8 < size' av"
  proof -
    let ?n = "size' av"
    have lo: "18446744073709551616 \<le> ?n * 16" and hi: "?n * 16 < 2 * 18446744073709551616"
      using assms(5,6) by (simp_all add: SIZE_MAX_def)
    have "?n * 16 mod 18446744073709551616 = ?n * 16 - 18446744073709551616"
      using lo hi by (simp add: le_mod_geq)
    moreover have "(?n * 16 - 18446744073709551616) div 8 < ?n"
      using lo hi by arith
    ultimately show ?thesis
      by (simp add: to_size_t_def SIZE_MAX_def)
  qed
  show ?thesis
    using assms b
    by (simp add: trackObject_def needs_init_def grow_def realloc_def store_def Let_def
        a sizeof_ptr_def resize_block_def mult.commute)
qed


lemma trackObject_cases:
  assumes "well_formed s" "trackObject ok obj s = Inr s'"
  obtains
    (init) "allocVector s = None" "ok (requests s)" "ok (Suc (requests s))"
      "s' = s\<lparr>allocVector := Some \<lparr>vector = Some (Some obj # replicate 127 None), used = 1, size' = 128\<rparr>,
                requests := requests s + 2,
                trace := trace s @ [Malloc 24, Malloc 1024]\<rparr>"
  | (room) av xs where "allocVector s = Some av" "vector av = Some xs" "used av < size' av"
      "s' = s\<lparr>allocVector := Some (av\<lparr>vector := Some (xs[used av := Some obj]),
                                           used := used av + 1\<rparr>)\<rparr>"
  | (full) av xs where "allocVector s = Some av" "vector av = Some xs" "used av = size' av"
      "ok (requests s)" "size' av * 16 \<le> SIZE_MAX"
      "s' = s\<lparr>allocVector :=
                     Some (av\<lparr>vector := Some ((xs @ replicate (size' av) None)[used av := Some obj]),
                              used := used av + 1, size' := 2 * size' av\<rparr>),
                   requests := Suc (requests s),
                   trace := trace s @ [Realloc (16 * size' av)]\<rparr>"
proof (cases "allocVector s")
  case None
  then have n: "needs_init s" by (simp add: needs_init_def)
  show ?thesis
  proof (cases "ok (requests s) \<and> ok (Suc (requests s))")
    case True
    with n assms(2) init None show ?thesis
      by (simp add: trackObject_init)
  next
    case False
    with n assms(2) show ?thesis
      by (simp add: trackObject_init_refused)
  qed
next
  case (Some av)
  with assms(1) obtain xs where xs: "vector av = Some xs" "length xs = size' av"
    "used av \<le> size' av" "0 < size' av" "size' av * 8 \<le> SIZE_MAX"
    by (rule well_formed_active)
  show ?thesis
  proof (cases "used av < size' av")
    case True
    have "length xs \<le> SIZE_MAX" using xs by linarith
    with True Some xs assms(2) room show ?thesis
      by (simp add: trackObject_room)
  next
    case False
    with xs have eq: "used av = size' av" by simp
    show ?thesis
    proof (cases "ok (requests s)")
      case False
      with Some xs eq assms(2) show ?thesis
        by (simp add: trackObject_full_refused)
    next
      case True
      show ?thesis
      proof (cases "size' av * 16 \<le> SIZE_MAX")
        case False
        then have "SIZE_MAX < size' av * 16" by simp
        from trackObject_full_too_large [OF Some xs(1) eq xs(2) xs(5) this, of ok obj] assms(2)
        show ?thesis by auto
      next
        case le: True
        with Some xs eq True assms(2) full show ?thesis
          by (simp add: trackObject_full)
      qed
    qed
  qed
qed

subsection \<open>The loop of freeObjects\<close>

text \<open>
  Started at \<open>i\<close> on slots that hold the pointers \<open>ps\<close>, the loop appends
  \<open>slot_events i ps\<close> to the trace when \<open>used \<le> INT_MAX\<close>, and overflows its counter
  otherwise.
\<close>

lemma released_append: "released (a @ b) = released a @ released b"
  by (induction a rule: released.induct) simp_all

lemma released_slot_events: "released (slot_events i ps) = ps"
  by (induction ps arbitrary: i) simp_all

lemma free_loop_complete:
  assumes "vector av = Some xs" "drop i (take (used av) xs) = map Some ps"
    "used av \<le> length xs" "used av \<le> INT_MAX"
  shows "\<exists>av'. free_loop i av tr = Inr (av', tr @ slot_events i ps)"
  using assms
proof (induction ps arbitrary: i av xs tr)
  case Nil
  then have "used av \<le> i" by simp
  then show ?case by (subst free_loop.simps) simp
next
  case (Cons p ps)
  from Cons.prems(2) have len: "i < length (take (used av) xs)"
    by (metis drop_eq_Nil2 list.simps(3) map_is_Nil_conv not_le_imp_less)
  then have i: "i < used av" "i < length xs" by simp_all
  from Cons.prems(2) len have "take (used av) xs ! i = Some p"
    by (metis Cons_nth_drop_Suc list.inject list.simps(9))
  with i have p: "xs ! i = Some p" by simp
  let ?av = "av\<lparr>vector := Some (xs[i := Some NULL])\<rparr>"
  have "drop (Suc i) (take (used av) xs) = map Some ps"
    using Cons.prems(2) by (metis drop_Suc list.sel(3) list.simps(9) tl_drop)
  then have d: "drop (Suc i) (take (used ?av) (xs[i := Some NULL])) = map Some ps"
    by (simp add: take_update_swap drop_update_cancel)
  have "\<exists>av'. free_loop (Suc i) ?av (tr @ [Free p, SlotNull i])
          = Inr (av', (tr @ [Free p, SlotNull i]) @ slot_events (Suc i) ps)"
    using Cons.prems(3,4) by (intro Cons.IH [OF _ d]) simp_all
  moreover have "i \<noteq> INT_MAX" using i(1) Cons.prems(4) by simp
  ultimately show ?case
    using i p Cons.prems(1) by (subst free_loop.simps) simp
qed

lemma free_loop_overflow:
  assumes "vector av = Some xs" "drop i (take (used av) xs) = map Some ps"
    "used av \<le> length xs" "i \<le> INT_MAX" "INT_MAX < used av"
  shows "free_loop i av tr = Inl SignedOverflow"
  using assms
proof (induction ps arbitrary: i av xs tr)
  case Nil
  then have "used av \<le> i" by simp
  with Nil.prems(4,5) show ?case by simp
next
  case (Cons p ps)
  from Cons.prems(2) have len: "i < length (take (used av) xs)"
    by (metis drop_eq_Nil2 list.simps(3) map_is_Nil_conv not_le_imp_less)
  then have i: "i < used av" "i < length xs" by simp_all
  from Cons.prems(2) len have "take (used av) xs ! i = Some p"
    by (metis Cons_nth_drop_Suc list.inject list.simps(9))
  with i have p: "xs ! i = Some p" by simp
  show ?case
  proof (cases "i = INT_MAX")
    case True
    with i p Cons.prems(1) show ?thesis by (subst free_loop.simps) simp
  next
    case False
    let ?av = "av\<lparr>vector := Some (xs[i := Some NULL])\<rparr>"
    have "drop (Suc i) (take (used av) xs) = map Some ps"
      using Cons.prems(2) by (metis drop_Suc list.sel(3) list.simps(9) tl_drop)
    then have d: "drop (Suc i) (take (used ?av) (xs[i := Some NULL])) = map Some ps"
      by (simp add: take_update_swap drop_update_cancel)
    have "free_loop (Suc i) ?av (tr @ [Free p, SlotNull i]) = Inl SignedOverflow"
      using Cons.prems(3,4,5) False by (intro Cons.IH [OF _ d]) simp_all
    with False i p Cons.prems(1) show ?thesis by (subst free_loop.simps) simp
  qed
qed


lemma registered_active:
  "allocVector s = Some av \<Longrightarrow> vector av = Some xs \<Longrightarrow> registered s = take (used av) xs"
  by (simp add: registered_def)

lemma all_initialised: "None \<notin> set ys \<Longrightarrow> \<exists>ps. ys = map Some ps"
proof (induction ys)
  case Nil
  then show ?case by simp
next
  case (Cons y ys)
  from Cons.prems have "None \<notin> set ys" by simp
  from Cons.IH [OF this] obtain ps where "ys = map Some ps" by blast
  moreover from Cons.prems obtain p where "y = Some p" by (cases y) auto
  ultimately have "y # ys = map Some (p # ps)" by simp
  then show ?case by (rule exI)
qed

lemma well_formed_registered:
  assumes "well_formed s"
  obtains hs where "registered s = map Some hs"
proof (cases "allocVector s")
  case None
  then have "registered s = map Some []" by (simp add: registered_def)
  then show ?thesis by (rule that)
next
  case (Some av)
  with assms obtain xs where "vector av = Some xs" "None \<notin> set (take (used av) xs)"
    by (rule well_formed_active)
  with Some all_initialised [of "take (used av) xs"] that show ?thesis
    by (auto simp add: registered_active)
qed

lemma well_formed_used:
  assumes "well_formed s" "allocVector s = Some av" "registered s = map Some hs"
  shows "used av = length hs"
proof -
  from assms(1,2) obtain xs where xs: "vector av = Some xs" "length xs = size' av"
    "used av \<le> size' av"
    by (rule well_formed_active)
  with assms(2,3) have "length (take (used av) xs) = length hs"
    by (simp add: registered_active)
  with xs show ?thesis by simp
qed

lemma freeObjects_active:
  assumes "well_formed s" "allocVector s = Some av" "registered s = map Some hs"
    "length hs \<le> INT_MAX"
  shows "freeObjects s =
           Inr (s\<lparr>allocVector := None,
                  trace := trace s @ slot_events 0 hs @
                             [FreeVector, VectorNull, FreeAllocVector, AllocVectorNull]\<rparr>)"
proof -
  from assms(1,2) obtain xs where xs: "vector av = Some xs" "length xs = size' av"
    "used av \<le> size' av"
    by (rule well_formed_active)
  have u: "used av = length hs"
    using assms(1,2,3) by (rule well_formed_used)
  have "drop 0 (take (used av) xs) = map Some hs"
    using assms(2,3) xs(1) by (simp add: registered_active)
  moreover have "used av \<le> length xs" "used av \<le> INT_MAX"
    using xs u assms(4) by simp_all
  ultimately obtain av' where
    "free_loop 0 av (trace s) = Inr (av', trace s @ slot_events 0 hs)"
    using free_loop_complete [OF xs(1), of 0 hs "trace s"] by blast
  with assms(2) show ?thesis
    by (simp add: freeObjects_def)
qed

lemma freeObjects_active_overflow:
  assumes "well_formed s" "allocVector s = Some av" "INT_MAX < used av"
  shows "freeObjects s = Inl SignedOverflow"
proof -
  from assms(1,2) obtain xs where xs: "vector av = Some xs" "length xs = size' av"
    "used av \<le> size' av" and "None \<notin> set (take (used av) xs)"
    by (rule well_formed_active)
  then obtain ps where "take (used av) xs = map Some ps"
    using all_initialised by blast
  then have "drop 0 (take (used av) xs) = map Some ps" by simp
  from free_loop_overflow [OF xs(1) this, of "trace s"] xs assms(3)
  have "free_loop 0 av (trace s) = Inl SignedOverflow" by simp
  with assms(2) show ?thesis
    by (simp add: freeObjects_def)
qed

lemma freeObjects_no_tracker: "allocVector s = None \<Longrightarrow> freeObjects s = Inr s"
  by (simp add: freeObjects_def)

lemma freeObjects_tears_down: "freeObjects s = Inr s' \<Longrightarrow> allocVector s' = None"
  by (auto simp add: freeObjects_def split: option.splits sum.splits)

lemma take_Suc_update: "u < length xs \<Longrightarrow> take (Suc u) (xs[u := v]) = take u xs @ [v]"
  by (simp add: take_Suc_conv_app_nth)

lemma first_of_fresh: "0 < n \<Longrightarrow> take (Suc 0) ((replicate n y)[0 := x]) = [x]"
  by (cases n) simp_all

subsection \<open>Runs\<close>

text \<open>
  \<open>well_formed\<close> is kept by every call that returns, and a returning \<^verbatim>\<open>trackObject\<close>
  appends its argument to the registered handles. Runs of \<^verbatim>\<open>trackObject\<close> calls return
  when every allocation is granted and the sizes stay representable.
\<close>

lemma trackObject_tracks:
  assumes "well_formed s" "registered s = map Some hs" "trackObject ok obj s = Inr s'"
  shows "well_formed s' \<and> registered s' = map Some (hs @ [obj]) \<and>
         released (trace s') = released (trace s) \<and> allocVector s' \<noteq> None"
  using assms(1,3)
proof (cases rule: trackObject_cases)
  case init
  with assms(2) show ?thesis
    by (simp add: well_formed_def registered_def sizeof_ptr_def SIZE_MAX_def released_append)
next
  case (room av xs)
  from assms(1) room(1) obtain xs' where xs': "vector av = Some xs'" "length xs' = size' av"
    "0 < size' av" "size' av * 8 \<le> SIZE_MAX" "None \<notin> set (take (used av) xs')"
    by (rule well_formed_active)
  with room have [simp]: "xs' = xs" by simp
  have "take (used av) xs = map Some hs"
    using assms(2) room by (simp add: registered_active)
  with room xs' show ?thesis
    by (simp add: well_formed_def registered_def sizeof_ptr_def take_Suc_update)
next
  case (full av xs)
  from assms(1) full(1) obtain xs' where xs': "vector av = Some xs'" "length xs' = size' av"
    "0 < size' av" "size' av * 8 \<le> SIZE_MAX" "None \<notin> set (take (used av) xs')"
    by (rule well_formed_active)
  with full have [simp]: "xs' = xs" by simp
  have "take (used av) xs = map Some hs"
    using assms(2) full by (simp add: registered_active)
  with full xs' show ?thesis
    by (simp add: well_formed_def registered_def sizeof_ptr_def list_update_append
        released_append first_of_fresh)
qed


lemma trackObject_returns:
  assumes "well_formed s" "registered s = map Some hs" "ok (requests s)" "ok (Suc (requests s))"
    "length hs * 16 \<le> SIZE_MAX"
  shows "\<exists>s'. trackObject ok obj s = Inr s'"
proof (cases "allocVector s")
  case None
  then have "needs_init s" by (simp add: needs_init_def)
  with assms(3,4) show ?thesis by (simp add: trackObject_init)
next
  case (Some av)
  with assms(1) obtain xs where xs: "vector av = Some xs" "length xs = size' av"
    "used av \<le> size' av" "0 < size' av" "size' av * 8 \<le> SIZE_MAX"
    by (rule well_formed_active)
  have u: "used av = length hs"
    using assms(1) Some assms(2) by (rule well_formed_used)
  show ?thesis
  proof (cases "used av < size' av")
    case True
    moreover have "length xs \<le> SIZE_MAX" using xs by linarith
    ultimately show ?thesis using Some xs by (simp add: trackObject_room)
  next
    case False
    with xs have "used av = size' av" by simp
    with Some xs u assms(3,5) show ?thesis by (simp add: trackObject_full)
  qed
qed

lemma run_append:
  "run ok (cs @ ds) s = (case run ok cs s of Inl u \<Rightarrow> Inl u | Inr s1 \<Rightarrow> run ok ds s1)"
  by (induction cs arbitrary: s) (simp_all split: sum.splits)

lemma run_tracks:
  assumes "well_formed s" "registered s = map Some hs" "run ok (map Track objs) s = Inr s'"
  shows "well_formed s' \<and> registered s' = map Some (hs @ objs) \<and>
         released (trace s') = released (trace s)"
  using assms
proof (induction objs arbitrary: s hs)
  case Nil
  then show ?case by simp
next
  case (Cons obj objs)
  from Cons.prems(3) obtain s1 where s1: "trackObject ok obj s = Inr s1"
    and rest: "run ok (map Track objs) s1 = Inr s'"
    by (auto simp add: step_def split: sum.splits)
  from trackObject_tracks [OF Cons.prems(1,2) s1]
  have "well_formed s1" "registered s1 = map Some (hs @ [obj])"
    "released (trace s1) = released (trace s)" by simp_all
  with Cons.IH [OF this(1,2) rest] show ?case by simp
qed

lemma run_tracks_returns:
  assumes "well_formed s" "registered s = map Some hs" "\<forall>k. ok k"
    "(length hs + length objs) * 16 \<le> SIZE_MAX"
  shows "\<exists>s'. run ok (map Track objs) s = Inr s'"
  using assms
proof (induction objs arbitrary: s hs)
  case Nil
  then show ?case by simp
next
  case (Cons obj objs)
  have "length hs * 16 \<le> SIZE_MAX" using Cons.prems(4) by simp
  with Cons.prems obtain s1 where s1: "trackObject ok obj s = Inr s1"
    using trackObject_returns [of s hs ok obj] by auto
  from trackObject_tracks [OF Cons.prems(1,2) s1]
  have wf1: "well_formed s1" and reg1: "registered s1 = map Some (hs @ [obj])" by simp_all
  have "(length (hs @ [obj]) + length objs) * 16 \<le> SIZE_MAX"
    using Cons.prems(4) by simp
  from Cons.IH [OF wf1 reg1 Cons.prems(3) this] s1 show ?case
    by (simp add: step_def)
qed

lemma well_formed_initial: "well_formed initial"
  by (simp add: well_formed_def initial_def)

lemma registered_initial: "registered initial = map Some []"
  by (simp add: registered_def initial_def)

lemma step_well_formed:
  assumes "well_formed s" "step ok c s = Inr s'"
  shows "well_formed s'"
proof (cases c)
  case (Track obj)
  from assms(1) obtain hs where "registered s = map Some hs"
    by (rule well_formed_registered)
  with assms Track show ?thesis
    using trackObject_tracks [of s hs ok obj s'] by (simp add: step_def)
next
  case ReleaseAll
  with assms(2) have "allocVector s' = None"
    by (simp add: step_def freeObjects_tears_down)
  then show ?thesis by (simp add: well_formed_def)
qed

lemma run_well_formed:
  assumes "well_formed s" "run ok cs s = Inr s'"
  shows "well_formed s'"
  using assms
proof (induction cs arbitrary: s)
  case Nil
  then show ?case by simp
next
  case (Cons c cs)
  from Cons.prems(2) obtain s1 where "step ok c s = Inr s1" "run ok cs s1 = Inr s'"
    by (auto split: sum.splits)
  with Cons.prems(1) Cons.IH step_well_formed show ?case by blast
qed

lemma tracks_then_release:
  assumes "\<forall>k. ok k" "length objs \<le> INT_MAX"
  shows "\<exists>s1 s2. run ok (map Track objs) initial = Inr s1 \<and>
           registered s1 = map Some objs \<and> released (trace s1) = [] \<and>
           freeObjects s1 = Inr s2 \<and> released (trace s2) = objs \<and> allocVector s2 = None"
proof -
  have "(length ([] :: jobject_ptr list) + length objs) * 16 \<le> SIZE_MAX"
    using assms(2) by (simp add: INT_MAX_def SIZE_MAX_def)
  from run_tracks_returns [OF well_formed_initial registered_initial assms(1) this]
  obtain s1 where s1: "run ok (map Track objs) initial = Inr s1" by blast
  from run_tracks [OF well_formed_initial registered_initial s1]
  have wf: "well_formed s1" and reg: "registered s1 = map Some objs"
    and rel: "released (trace s1) = []" by (simp_all add: initial_def)
  show ?thesis
  proof (cases "allocVector s1")
    case None
    with reg have "objs = []" by (simp add: registered_def)
    with None s1 reg rel show ?thesis by (simp add: freeObjects_def)
  next
    case (Some av)
    from freeObjects_active [OF wf Some reg assms(2)] s1 reg rel show ?thesis
      by (simp add: released_append released_slot_events)
  qed
qed

lemma tracks_then_release_overflow:
  assumes "\<forall>k. ok k" "INT_MAX < length objs" "length objs * 16 \<le> SIZE_MAX"
  shows "\<exists>s1 av. run ok (map Track objs) initial = Inr s1 \<and> allocVector s1 = Some av \<and>
           used av = length objs \<and> freeObjects s1 = Inl SignedOverflow"
proof -
  have "(length ([] :: jobject_ptr list) + length objs) * 16 \<le> SIZE_MAX"
    using assms(3) by simp
  from run_tracks_returns [OF well_formed_initial registered_initial assms(1) this]
  obtain s1 where s1: "run ok (map Track objs) initial = Inr s1" by blast
  from run_tracks [OF well_formed_initial registered_initial s1]
  have wf: "well_formed s1" and reg: "registered s1 = map Some objs" by simp_all
  from assms(2) have "objs \<noteq> []" by auto
  with reg obtain av where av: "allocVector s1 = Some av"
    by (cases "allocVector s1") (auto simp add: registered_def)
  have u: "used av = length objs" using wf av reg by (rule well_formed_used)
  with assms(2) have "INT_MAX < used av" by simp
  from freeObjects_active_overflow [OF wf av this] s1 av u show ?thesis by simp
qed

lemma run_tracks_room:
  assumes "allocVector s = Some av" "vector av = Some xs" "length xs = size' av"
    "used av + length objs \<le> size' av" "size' av \<le> SIZE_MAX"
  shows "\<exists>xs'. run ok (map Track objs) s =
                  Inr (s\<lparr>allocVector :=
                            Some (av\<lparr>vector := Some xs', used := used av + length objs\<rparr>)\<rparr>) \<and>
               length xs' = length xs \<and>
               take (used av + length objs) xs' = take (used av) xs @ map Some objs"
  using assms
proof (induction objs arbitrary: s av xs)
  case Nil
  then have "s\<lparr>allocVector := Some (av\<lparr>vector := Some xs, used := used av\<rparr>)\<rparr> = s"
    by simp
  then show ?case by (intro exI [of _ xs]) simp
next
  case (Cons obj objs)
  let ?av = "av\<lparr>vector := Some (xs[used av := Some obj]), used := used av + 1\<rparr>"
  let ?s = "s\<lparr>allocVector := Some ?av\<rparr>"
  have u: "used av < length xs" "used av \<noteq> size' av" "length xs \<le> SIZE_MAX"
    using Cons.prems(3,4,5) by simp_all
  have t: "trackObject ok obj s = Inr ?s"
    using Cons.prems(1,2) u by (simp add: trackObject_room)
  have "\<exists>xs'. run ok (map Track objs) ?s =
                  Inr (?s\<lparr>allocVector :=
                            Some (?av\<lparr>vector := Some xs', used := used ?av + length objs\<rparr>)\<rparr>) \<and>
               length xs' = length (xs[used av := Some obj]) \<and>
               take (used ?av + length objs) xs' =
                 take (used ?av) (xs[used av := Some obj]) @ map Some objs"
    using Cons.prems(3,4,5) by (intro Cons.IH) simp_all
  then obtain xs' where
    "run ok (map Track objs) ?s =
       Inr (s\<lparr>allocVector := Some (av\<lparr>vector := Some xs', used := used av + length (obj # objs)\<rparr>)\<rparr>)"
    "length xs' = length xs"
    "take (used av + length (obj # objs)) xs' = take (used av) xs @ map Some (obj # objs)"
    using u(1) by (auto simp add: take_Suc_update)
  with t show ?case by (auto simp add: step_def)
qed

lemma repeated_handle_released_per_registration:
  assumes "\<forall>k. ok k" "length objs \<le> INT_MAX"
  shows "\<exists>s1 s2. run ok (map Track objs) initial = Inr s1 \<and> freeObjects s1 = Inr s2 \<and>
           count_list (released (trace s2)) p = count_list objs p"
  using tracks_then_release [OF assms] by auto

subsection \<open>The bound on used, step by step\<close>

lemma to_size_t_le: "to_size_t n \<le> n"
  by (simp add: to_size_t_def)

lemma length_resize_block: "length (resize_block n xs) = n div sizeof_ptr"
  by (simp add: resize_block_def)

lemma length_new_block: "length (new_block n) = n div sizeof_ptr"
  by (simp add: new_block_def)

lemma slots_le: "to_size_t (n * sizeof_ptr) div sizeof_ptr \<le> n"
proof -
  have "to_size_t (n * sizeof_ptr) div sizeof_ptr \<le> (n * sizeof_ptr) div sizeof_ptr"
    by (intro div_le_mono to_size_t_le)
  then show ?thesis by (simp add: sizeof_ptr_def)
qed

lemma initAllocVector_result:
  assumes "initAllocVector ok s = Inr s'"
  shows "\<exists>av. allocVector s' = Some av \<and> used av = 0 \<and> size' av = 128"
  using assms
  by (auto simp add: initAllocVector_def malloc_def Let_def split: if_splits)

lemma store_result:
  assumes "store obj av s = Inr s'"
  shows "\<exists>xs. vector av = Some xs \<and> used av < length xs \<and>
              s' = s\<lparr>allocVector :=
                        Some (av\<lparr>vector := Some (xs[used av := Some obj]),
                                 used := to_size_t (used av + 1)\<rparr>)\<rparr>"
  using assms by (auto simp add: store_def split: option.splits if_splits)

lemma trackObject_within_capacity:
  assumes "within_capacity s" "trackObject ok obj s = Inr s'"
  shows "within_capacity s'"
proof -
  from assms(2) obtain s1 av1 where
    s1: "(if needs_init s then initAllocVector ok s else Inr s) = Inr s1"
    and av1: "allocVector s1 = Some av1"
    and rest: "(let s2 = (if used av1 = size' av1 then grow ok av1 s1 else s1)
                in case allocVector s2 of
                     None \<Rightarrow> Inl NullDereference
                   | Some av2 \<Rightarrow> store obj av2 s2) = Inr s'"
    by (auto simp add: trackObject_def split: sum.splits option.splits)
  have le1: "used av1 \<le> size' av1"
  proof (cases "needs_init s")
    case True
    with s1 av1 initAllocVector_result [of ok s s1] show ?thesis by auto
  next
    case False
    with s1 av1 assms(1) show ?thesis by (simp add: within_capacity_def)
  qed
  show ?thesis
  proof (cases "used av1 = size' av1")
    case False
    with rest av1 have "store obj av1 s1 = Inr s'" by simp
    from store_result [OF this] obtain xs where
      s': "s' = s1\<lparr>allocVector :=
                        Some (av1\<lparr>vector := Some (xs[used av1 := Some obj]),
                                  used := to_size_t (used av1 + 1)\<rparr>)\<rparr>" by blast
    from False le1 have "used av1 + 1 \<le> size' av1" by simp
    with to_size_t_le [of "used av1 + 1"] have "to_size_t (used av1 + 1) \<le> size' av1"
      by (rule le_trans)
    with s' show ?thesis by (simp add: within_capacity_def)
  next
    case True
    let ?sz = "to_size_t (size' av1 * 2)"
    let ?n = "to_size_t (?sz * sizeof_ptr)"
    from True rest obtain av2 where av2: "allocVector (grow ok av1 s1) = Some av2"
      and st: "store obj av2 (grow ok av1 s1) = Inr s'"
      by (auto simp add: Let_def split: option.splits)
    from av2 have sz2: "size' av2 = ?sz" and u2: "used av2 = used av1"
      and v2: "vector av2 = None \<or> (\<exists>ys. vector av2 = Some ys \<and> length ys = ?n div sizeof_ptr)"
      by (auto simp add: grow_def realloc_def Let_def length_resize_block length_new_block
          split: if_splits option.splits)
    from store_result [OF st] obtain xs where xs: "vector av2 = Some xs" "used av2 < length xs"
      and s': "s' = (grow ok av1 s1)\<lparr>allocVector :=
                        Some (av2\<lparr>vector := Some (xs[used av2 := Some obj]),
                                  used := to_size_t (used av2 + 1)\<rparr>)\<rparr>" by blast
    from v2 xs have "length xs = ?n div sizeof_ptr" by auto
    with slots_le [of ?sz] have "length xs \<le> ?sz" by simp
    with xs(2) have "used av2 + 1 \<le> ?sz" by simp
    with to_size_t_le [of "used av2 + 1"] have "to_size_t (used av2 + 1) \<le> ?sz"
      by (rule le_trans)
    with s' sz2 show ?thesis by (simp add: within_capacity_def)
  qed
qed

lemma step_within_capacity:
  assumes "within_capacity s" "step ok c s = Inr s'"
  shows "within_capacity s'"
proof (cases c)
  case (Track obj)
  with assms show ?thesis by (simp add: step_def trackObject_within_capacity)
next
  case ReleaseAll
  with assms(2) have "allocVector s' = None"
    by (simp add: step_def freeObjects_tears_down)
  then show ?thesis by (simp add: within_capacity_def)
qed

lemma run_within_capacity:
  assumes "within_capacity s" "run ok cs s = Inr s'"
  shows "within_capacity s'"
  using assms
proof (induction cs arbitrary: s)
  case Nil
  then show ?case by simp
next
  case (Cons c cs)
  from Cons.prems(2) obtain s1 where "step ok c s = Inr s1" "run ok cs s1 = Inr s'"
    by (auto split: sum.splits)
  with Cons.prems(1) Cons.IH step_within_capacity show ?case by blast
qed

section \<open>The claims\<close>

subsection \<open>Tracking, then releasing\<close>

text \<open>
  C1. A run of \<open>N\<close> calls of \<^verbatim>\<open>trackObject\<close> followed by one \<^verbatim>\<open>freeObjects\<close> is claimed to
  release exactly the \<open>N\<close> registered handles, once each, in registration order and none
  before \<^verbatim>\<open>freeObjects\<close> is called, for every \<open>N\<close>. Lemma \<open>tracks_then_release\<close> proves
  this for \<open>N \<le> INT_MAX\<close> when every allocation is granted. It fails for larger \<open>N\<close>:
  \<^verbatim>\<open>used\<close> is a \<^verbatim>\<open>size_t\<close>, but the loop of \<^verbatim>\<open>freeObjects\<close> counts the slots with an
  \<^verbatim>\<open>int\<close>, and incrementing it past \<open>INT_MAX\<close> is a signed overflow. The theorem runs the
  code on the \<open>2\<^sup>3\<^sup>1 + 1\<close> handles \<open>1, \<dots>, 2147483649\<close> with every allocation granted:
  the outcome is undefined behaviour, not the release of every handle.
\<close>

theorem release_all_overflows_on_many_handles:
  "run granted (map Track [1..<2147483650] @ [ReleaseAll]) initial = Inl SignedOverflow"
proof -
  have g: "\<forall>k. granted k" by (simp add: granted_def)
  have l: "length [1..<2147483650] = 2147483649" by (simp only: length_upt)
  have "INT_MAX < length [1..<2147483650]" "length [1..<2147483650] * 16 \<le> SIZE_MAX"
    unfolding l by (simp_all add: INT_MAX_def SIZE_MAX_def)
  from tracks_then_release_overflow [OF g this] obtain s1 where
    "run granted (map Track [1..<2147483650]) initial = Inr s1"
    "freeObjects s1 = Inl SignedOverflow" by blast
  then show ?thesis by (simp only: run_append run.simps step_def sum.case call.case)
qed

text \<open>
  C7. \<^verbatim>\<open>freeObjects\<close> on an existing tracker is claimed to go through every slot from
  \<open>0\<close> up to \<^verbatim>\<open>used\<close>, freeing the handle and storing \<^verbatim>\<open>NULL\<close> in the slot before it moves
  on, and only then to free the vector, free the \<^verbatim>\<open>AllocVector\<close> and reset the global
  pointer. Lemma \<open>freeObjects_active\<close> proves that order, as the exact trace
  \<open>slot_events 0 hs @ [FreeVector, VectorNull, FreeAllocVector, AllocVectorNull]\<close>, for
  a tracker with at most \<open>INT_MAX\<close> slots in use. With more slots in use the \<^verbatim>\<open>int\<close>
  counter overflows after slot \<open>INT_MAX\<close>: the later slots are not processed and the
  storage is not released. The theorem shows it for the tracker that registering
  \<open>2\<^sup>3\<^sup>1 + 1\<close> handles builds.
\<close>

theorem release_all_loop_overflows:
  "\<exists>s av. run granted (map Track [1..<2147483650]) initial = Inr s \<and>
          allocVector s = Some av \<and> used av = 2147483649 \<and>
          freeObjects s = Inl SignedOverflow"
proof -
  have g: "\<forall>k. granted k" by (simp add: granted_def)
  have l: "length [1..<2147483650] = 2147483649" by (simp only: length_upt)
  have "INT_MAX < length [1..<2147483650]" "length [1..<2147483650] * 16 \<le> SIZE_MAX"
    unfolding l by (simp_all add: INT_MAX_def SIZE_MAX_def)
  from tracks_then_release_overflow [OF g this] show ?thesis unfolding l .
qed

text \<open>
  C9. The tracker does not look for duplicates: a pointer registered \<open>k\<close> times is
  claimed to be passed to \<^verbatim>\<open>free\<close> exactly \<open>k\<close> times by the next \<^verbatim>\<open>freeObjects\<close>. Lemma
  \<open>repeated_handle_released_per_registration\<close> proves it while at most \<open>INT_MAX\<close>
  handles are registered in all. For \<open>k > INT_MAX\<close> the loop counter of \<^verbatim>\<open>freeObjects\<close>
  overflows before the last copy is reached; the theorem runs the code on
  \<open>2\<^sup>3\<^sup>1 + 1\<close> registrations of the same pointer \<open>p\<close>, whatever it is (for \<^verbatim>\<open>NULL\<close> the
  calls of \<^verbatim>\<open>free\<close> are themselves harmless).
\<close>

theorem release_all_overflows_on_repeated_handle:
  "run granted (map Track (replicate 2147483649 p) @ [ReleaseAll]) initial = Inl SignedOverflow"
proof -
  have g: "\<forall>k. granted k" by (simp add: granted_def)
  have "INT_MAX < length (replicate 2147483649 p)"
    "length (replicate 2147483649 p) * 16 \<le> SIZE_MAX"
    by (simp_all add: INT_MAX_def SIZE_MAX_def)
  from tracks_then_release_overflow [OF g this] obtain s1 where
    "run granted (map Track (replicate 2147483649 p)) initial = Inr s1"
    "freeObjects s1 = Inl SignedOverflow" by blast
  then show ?thesis by (simp only: run_append run.simps step_def sum.case call.case)
qed

subsection \<open>Growth\<close>

text \<open>
  C2. From program start, when the three allocation requests involved are granted:
  registering 128 handles leaves a tracker with \<open>used = size = 128\<close> and no
  \<^verbatim>\<open>realloc\<close> in the trace; registering one more handle returns, appends exactly one
  \<^verbatim>\<open>realloc\<close> (of 256 slots) to the trace and leaves \<open>size = 256\<close>, \<open>used = 129\<close>, the 129
  handles in slots \<open>0 ..< 129\<close> in registration order, and nothing released.
\<close>

theorem growth_at_129:
  assumes "length hs = 128" "ok 0" "ok 1" "ok 2"
  shows "\<exists>s1 av1 s2 av2.
           run ok (map Track hs) initial = Inr s1 \<and> allocVector s1 = Some av1 \<and>
           used av1 = 128 \<and> size' av1 = 128 \<and> growths (trace s1) = 0 \<and>
           trackObject ok h s1 = Inr s2 \<and> allocVector s2 = Some av2 \<and>
           used av2 = 129 \<and> size' av2 = 256 \<and>
           trace s2 = trace s1 @ [Realloc (256 * sizeof_ptr)] \<and> growths (trace s2) = 1 \<and>
           registered s2 = map Some (hs @ [h]) \<and> released (trace s2) = []"
proof -
  from assms(1) obtain h0 hs' where hs: "hs = h0 # hs'" and len: "length hs' = 127"
    by (cases hs) simp_all
  let ?av0 = "\<lparr>vector = Some (Some h0 # replicate 127 None), used = 1, size' = 128\<rparr>"
  let ?s0 = "initial\<lparr>allocVector := Some ?av0, requests := requests initial + 2,
                      trace := trace initial @ [Malloc 24, Malloc 1024]\<rparr>"
  have first: "trackObject ok h0 initial = Inr ?s0"
    using assms(2,3) by (intro trackObject_init) (simp_all add: needs_init_def initial_def)
  have "\<exists>xs'. run ok (map Track hs') ?s0 =
                  Inr (?s0\<lparr>allocVector :=
                             Some (?av0\<lparr>vector := Some xs', used := used ?av0 + length hs'\<rparr>)\<rparr>) \<and>
               length xs' = length (Some h0 # replicate 127 None) \<and>
               take (used ?av0 + length hs') xs' =
                 take (used ?av0) (Some h0 # replicate 127 None) @ map Some hs'"
    using len by (intro run_tracks_room) (simp_all add: SIZE_MAX_def)
  then obtain xs' where rest: "run ok (map Track hs') ?s0 =
        Inr (?s0\<lparr>allocVector := Some (?av0\<lparr>vector := Some xs', used := 128\<rparr>)\<rparr>)"
    and lxs: "length xs' = 128" and txs: "take 128 xs' = map Some hs"
    using len hs by auto
  let ?av1 = "?av0\<lparr>vector := Some xs', used := 128\<rparr>"
  let ?s1 = "?s0\<lparr>allocVector := Some ?av1\<rparr>"
  have r1: "run ok (map Track hs) initial = Inr ?s1"
    using first rest hs by (simp add: step_def)
  have wf1: "well_formed ?s1"
    using run_well_formed [OF well_formed_initial r1] .
  have reg1: "registered ?s1 = map Some hs"
    using txs by (simp add: registered_def)
  have "trackObject ok h ?s1 =
          Inr (?s1\<lparr>allocVector :=
                       Some (?av1\<lparr>vector := Some ((xs' @ replicate (size' ?av1) None)[used ?av1 := Some h]),
                                  used := used ?av1 + 1, size' := 2 * size' ?av1\<rparr>),
                    requests := Suc (requests ?s1),
                    trace := trace ?s1 @ [Realloc (16 * size' ?av1)]\<rparr>)"
    using lxs assms(4)
    by (intro trackObject_full) (simp_all add: SIZE_MAX_def initial_def numeral_2_eq_2)
  then obtain s2 where s2: "trackObject ok h ?s1 = Inr s2"
    and f2: "allocVector s2 = Some (?av1\<lparr>vector := Some ((xs' @ replicate 128 None)[128 := Some h]),
                                  used := 129, size' := 256\<rparr>)"
       "trace s2 = trace ?s1 @ [Realloc 2048]"
    by simp
  from trackObject_tracks [OF wf1 reg1 s2]
  have "registered s2 = map Some (hs @ [h])" by simp
  with r1 s2 f2 show ?thesis
    by (simp add: initial_def sizeof_ptr_def)
qed


theorem growth_at_129_witness:
  "length [1..<129] = 128 \<and> granted 0 \<and> granted 1 \<and> granted 2 \<and>
   (\<exists>s1 av1 s2 av2.
      run granted (map Track [1..<129]) initial = Inr s1 \<and> allocVector s1 = Some av1 \<and>
      used av1 = 128 \<and> size' av1 = 128 \<and> growths (trace s1) = 0 \<and>
      trackObject granted 129 s1 = Inr s2 \<and> allocVector s2 = Some av2 \<and>
      used av2 = 129 \<and> size' av2 = 256 \<and>
      trace s2 = trace s1 @ [Realloc (256 * sizeof_ptr)] \<and> growths (trace s2) = 1 \<and>
      registered s2 = map Some ([1..<129] @ [129]) \<and> released (trace s2) = [])"
proof -
  have l: "length [1..<129] = 128" by (simp only: length_upt)
  have g: "granted 0" "granted 1" "granted 2" by (simp_all add: granted_def)
  from growth_at_129 [OF l g, of 129] l g show ?thesis by (intro conjI)
qed

text \<open>
  C5. A call of \<^verbatim>\<open>trackObject\<close> on an existing tracker returns exactly when there is room,
  or the \<^verbatim>\<open>realloc\<close> request is granted and the doubled size in bytes fits \<^verbatim>\<open>size_t\<close>. Whenever
  it returns: if \<open>used = size\<close> then \<open>size\<close> has doubled, one \<^verbatim>\<open>realloc\<close> was made and the
  vector has \<open>size\<close> slots; otherwise \<open>size\<close> and the trace are unchanged; in both cases the
  slots below the old \<open>used\<close> are what they were, slot \<open>used\<close> holds the new handle and \<open>used\<close>
  is one more. (The other outcome, a refused request, is the subject of C4.)
\<close>

theorem track_appends:
  assumes "well_formed s" "allocVector s = Some av" "vector av = Some xs"
  shows "((\<exists>s'. trackObject ok obj s = Inr s') \<longleftrightarrow>
            used av < size' av \<or> ok (requests s) \<and> size' av * 2 * sizeof_ptr \<le> SIZE_MAX) \<and>
         (\<forall>s'. trackObject ok obj s = Inr s' \<longrightarrow>
            (\<exists>av' xs'. allocVector s' = Some av' \<and> vector av' = Some xs' \<and>
               size' av' = (if used av = size' av then 2 * size' av else size' av) \<and>
               length xs' = size' av' \<and>
               trace s' = trace s @ (if used av = size' av
                                     then [Realloc (2 * size' av * sizeof_ptr)] else []) \<and>
               take (used av) xs' = take (used av) xs \<and>
               xs' ! used av = Some obj \<and>
               used av' = used av + 1))"
proof (intro conjI allI impI iffI)
  assume "\<exists>s'. trackObject ok obj s = Inr s'"
  then obtain s' where "trackObject ok obj s = Inr s'" ..
  with assms(1) show "used av < size' av \<or> ok (requests s) \<and> size' av * 2 * sizeof_ptr \<le> SIZE_MAX"
    using assms(2) by (cases rule: trackObject_cases) (simp_all add: sizeof_ptr_def)
next
  assume a: "used av < size' av \<or> ok (requests s) \<and> size' av * 2 * sizeof_ptr \<le> SIZE_MAX"
  from assms(1,2) obtain xs0 where xs0: "vector av = Some xs0" "length xs0 = size' av"
    "used av \<le> size' av" "0 < size' av" "size' av * 8 \<le> SIZE_MAX"
    by (rule well_formed_active)
  show "\<exists>s'. trackObject ok obj s = Inr s'"
  proof (cases "used av < size' av")
    case True
    moreover have "length xs0 \<le> SIZE_MAX" using xs0 by linarith
    ultimately show ?thesis using xs0 assms(2) by (simp add: trackObject_room)
  next
    case False
    with a xs0 assms(2) show ?thesis
      by (simp add: trackObject_full sizeof_ptr_def)
  qed
next
  fix s'
  assume r: "trackObject ok obj s = Inr s'"
  from assms(1,2) obtain xs0 where xs0: "vector av = Some xs0" "length xs0 = size' av"
    "used av \<le> size' av" "0 < size' av"
    by (rule well_formed_active)
  with assms(3) have [simp]: "xs0 = xs" by simp
  from assms(1) r show "\<exists>av' xs'. allocVector s' = Some av' \<and> vector av' = Some xs' \<and>
               size' av' = (if used av = size' av then 2 * size' av else size' av) \<and>
               length xs' = size' av' \<and>
               trace s' = trace s @ (if used av = size' av
                                     then [Realloc (2 * size' av * sizeof_ptr)] else []) \<and>
               take (used av) xs' = take (used av) xs \<and>
               xs' ! used av = Some obj \<and>
               used av' = used av + 1"
  proof (cases rule: trackObject_cases)
    case init
    with assms(2) show ?thesis by simp
  next
    case (room av1 xs1)
    with assms(2,3) xs0 show ?thesis by simp
  next
    case (full av1 xs1)
    with assms(2,3) xs0 show ?thesis
      by (simp add: sizeof_ptr_def list_update_append nth_append)
  qed
qed

theorem track_appends_witness:
  "well_formed \<lparr>allocVector = Some \<lparr>vector = Some (replicate 128 (Some 7)), used = 128, size' = 128\<rparr>,
                requests = 2, trace = [Malloc 24, Malloc 1024]\<rparr> \<and>
   (\<exists>s' av' xs'.
      trackObject granted 9
        \<lparr>allocVector = Some \<lparr>vector = Some (replicate 128 (Some 7)), used = 128, size' = 128\<rparr>,
         requests = 2, trace = [Malloc 24, Malloc 1024]\<rparr> = Inr s' \<and>
      allocVector s' = Some av' \<and> vector av' = Some xs' \<and> size' av' = 256 \<and>
      length xs' = 256 \<and> trace s' = [Malloc 24, Malloc 1024, Realloc 2048] \<and>
      take 128 xs' = replicate 128 (Some 7) \<and> xs' ! 128 = Some 9 \<and> used av' = 129)"
proof -
  let ?av = "\<lparr>vector = Some (replicate 128 (Some 7)), used = 128, size' = 128\<rparr>"
  let ?s = "\<lparr>allocVector = Some ?av, requests = 2, trace = [Malloc 24, Malloc 1024]\<rparr>"
  have wf: "well_formed ?s"
    by (simp add: well_formed_def sizeof_ptr_def SIZE_MAX_def)
  have av: "allocVector ?s = Some ?av" and xs: "vector ?av = Some (replicate 128 (Some 7))"
    by simp_all
  note t = track_appends [OF wf av xs, of granted 9]
  from t have "\<exists>s'. trackObject granted 9 ?s = Inr s'"
    by (simp add: granted_def sizeof_ptr_def SIZE_MAX_def)
  then obtain s' where s': "trackObject granted 9 ?s = Inr s'" ..
  with t obtain av' xs' where "allocVector s' = Some av'" "vector av' = Some xs'"
    "size' av' = 256" "length xs' = 256" "trace s' = [Malloc 24, Malloc 1024, Realloc 2048]"
    "take 128 xs' = replicate 128 (Some 7)" "xs' ! 128 = Some 9" "used av' = 129"
    by (auto simp add: sizeof_ptr_def)
  with s' have "\<exists>s' av' xs'. trackObject granted 9 ?s = Inr s' \<and>
      allocVector s' = Some av' \<and> vector av' = Some xs' \<and> size' av' = 256 \<and>
      length xs' = 256 \<and> trace s' = [Malloc 24, Malloc 1024, Realloc 2048] \<and>
      take 128 xs' = replicate 128 (Some 7) \<and> xs' ! 128 = Some 9 \<and> used av' = 129"
    by blast
  with wf show ?thesis by simp
qed

subsection \<open>Releasing without a tracker, and tracking again\<close>

text \<open>
  C3. When \<^verbatim>\<open>_allocVector\<close> is \<^verbatim>\<open>NULL\<close>, \<^verbatim>\<open>freeObjects\<close> returns at once: it returns
  normally, and the state it returns is the state it was called in, trace included, so
  nothing is released. That is the case at program start, where no object was ever
  tracked, and in every state that a completed \<^verbatim>\<open>freeObjects\<close> leaves behind, so the
  second of two consecutive calls does nothing.
\<close>

theorem release_all_without_tracker:
  "freeObjects initial = Inr initial \<and>
   (allocVector s = None \<longrightarrow> freeObjects s = Inr s) \<and>
   (freeObjects s = Inr s1 \<longrightarrow> allocVector s1 = None \<and> freeObjects s1 = Inr s1)"
proof (intro conjI impI)
  have "allocVector initial = None" by (simp add: initial_def)
  then show "freeObjects initial = Inr initial" by (rule freeObjects_no_tracker)
next
  assume "allocVector s = None"
  then show "freeObjects s = Inr s" by (rule freeObjects_no_tracker)
next
  assume "freeObjects s = Inr s1"
  then show "allocVector s1 = None" by (rule freeObjects_tears_down)
  then show "freeObjects s1 = Inr s1" by (rule freeObjects_no_tracker)
qed

theorem release_all_without_tracker_witness:
  "freeObjects \<lparr>allocVector = Some \<lparr>vector = Some (Some 7 # Some 8 # replicate 126 None),
                                      used = 2, size' = 128\<rparr>,
                requests = 2, trace = [Malloc 24, Malloc 1024]\<rparr>
     = Inr \<lparr>allocVector = None, requests = 2,
            trace = [Malloc 24, Malloc 1024, Free 7, SlotNull 0, Free 8, SlotNull 1,
                     FreeVector, VectorNull, FreeAllocVector, AllocVectorNull]\<rparr> \<and>
   allocVector \<lparr>allocVector = None, requests = 2,
            trace = [Malloc 24, Malloc 1024, Free 7, SlotNull 0, Free 8, SlotNull 1,
                     FreeVector, VectorNull, FreeAllocVector, AllocVectorNull]\<rparr> = None \<and>
   freeObjects \<lparr>allocVector = None, requests = 2,
            trace = [Malloc 24, Malloc 1024, Free 7, SlotNull 0, Free 8, SlotNull 1,
                     FreeVector, VectorNull, FreeAllocVector, AllocVectorNull]\<rparr>
     = Inr \<lparr>allocVector = None, requests = 2,
            trace = [Malloc 24, Malloc 1024, Free 7, SlotNull 0, Free 8, SlotNull 1,
                     FreeVector, VectorNull, FreeAllocVector, AllocVectorNull]\<rparr>"
proof -
  let ?s = "\<lparr>allocVector = Some \<lparr>vector = Some (Some 7 # Some 8 # replicate 126 None),
                                   used = 2, size' = 128\<rparr>,
             requests = 2, trace = [Malloc 24, Malloc 1024]\<rparr>"
  let ?s1 = "\<lparr>allocVector = None, requests = 2,
              trace = [Malloc 24, Malloc 1024, Free 7, SlotNull 0, Free 8, SlotNull 1,
                       FreeVector, VectorNull, FreeAllocVector, AllocVectorNull]\<rparr>"
  have h: "freeObjects ?s = Inr ?s1"
    by (simp add: freeObjects_def free_loop.simps INT_MAX_def)
  with release_all_without_tracker [of ?s ?s1] show ?thesis by simp
qed

text \<open>
  C6. After a completed \<^verbatim>\<open>freeObjects\<close>, a call of \<^verbatim>\<open>trackObject\<close> whose two \<^verbatim>\<open>malloc\<close>
  requests are granted returns and leaves a new tracker with \<open>size = 128\<close> and \<open>used = 1\<close>
  whose only registered handle is the new one.
\<close>

theorem track_after_release:
  assumes "freeObjects s = Inr s1" "ok (requests s1)" "ok (Suc (requests s1))"
  shows "\<exists>s2 av. trackObject ok obj s1 = Inr s2 \<and> allocVector s2 = Some av \<and>
           size' av = 128 \<and> used av = 1 \<and> registered s2 = [Some obj] \<and>
           vector av = Some (Some obj # replicate 127 None) \<and>
           trace s2 = trace s1 @ [Malloc sizeof_AllocVector, Malloc (128 * sizeof_ptr)]"
proof -
  from assms(1) have "allocVector s1 = None" by (rule freeObjects_tears_down)
  then have "needs_init s1" by (simp add: needs_init_def)
  from trackObject_init [OF this assms(2,3), of obj] show ?thesis
    by (simp add: registered_def sizeof_AllocVector_def sizeof_ptr_def)
qed

theorem track_after_release_witness:
  "freeObjects \<lparr>allocVector = Some \<lparr>vector = Some (Some 7 # Some 8 # replicate 126 None),
                                      used = 2, size' = 128\<rparr>,
                requests = 2, trace = [Malloc 24, Malloc 1024]\<rparr>
     = Inr \<lparr>allocVector = None, requests = 2,
            trace = [Malloc 24, Malloc 1024, Free 7, SlotNull 0, Free 8, SlotNull 1,
                     FreeVector, VectorNull, FreeAllocVector, AllocVectorNull]\<rparr> \<and>
   granted 2 \<and> granted 3 \<and>
   (\<exists>s2 av.
      trackObject granted 9
        \<lparr>allocVector = None, requests = 2,
         trace = [Malloc 24, Malloc 1024, Free 7, SlotNull 0, Free 8, SlotNull 1,
                  FreeVector, VectorNull, FreeAllocVector, AllocVectorNull]\<rparr> = Inr s2 \<and>
      allocVector s2 = Some av \<and> size' av = 128 \<and> used av = 1 \<and>
      registered s2 = [Some 9])"
proof -
  let ?s = "\<lparr>allocVector = Some \<lparr>vector = Some (Some 7 # Some 8 # replicate 126 None),
                                   used = 2, size' = 128\<rparr>,
             requests = 2, trace = [Malloc 24, Malloc 1024]\<rparr>"
  let ?s1 = "\<lparr>allocVector = None, requests = 2,
              trace = [Malloc 24, Malloc 1024, Free 7, SlotNull 0, Free 8, SlotNull 1,
                       FreeVector, VectorNull, FreeAllocVector, AllocVectorNull]\<rparr>"
  have h: "freeObjects ?s = Inr ?s1"
    by (simp add: freeObjects_def free_loop.simps INT_MAX_def)
  have g: "granted (requests ?s1)" "granted (Suc (requests ?s1))"
    by (simp_all add: granted_def)
  from track_after_release [OF h g, of 9] obtain s2 av where
    "trackObject granted 9 ?s1 = Inr s2" "allocVector s2 = Some av" "size' av = 128"
    "used av = 1" "registered s2 = [Some 9]" by blast
  then have "\<exists>s2 av. trackObject granted 9 ?s1 = Inr s2 \<and> allocVector s2 = Some av \<and>
      size' av = 128 \<and> used av = 1 \<and> registered s2 = [Some 9]" by blast
  with h show ?thesis by (simp add: granted_def)
qed

subsection \<open>Allocation failure\<close>

text \<open>
  C4. \<^verbatim>\<open>trackObject\<close> is claimed to report a failed allocation to its caller as a
  recoverable out-of-memory result. The C function returns \<^verbatim>\<open>void\<close> and never tests what
  \<^verbatim>\<open>malloc\<close> or \<^verbatim>\<open>realloc\<close> returned. The counterexample: at program start with the
  allocator out of memory, the call ends in undefined behaviour, the store through the
  \<^verbatim>\<open>NULL\<close> that \<^verbatim>\<open>malloc\<close> returned.
\<close>

theorem track_out_of_memory_counterexample:
  "trackObject refused 1 initial = Inl NullDereference"
  by (simp add: trackObject_init_refused needs_init_def initial_def refused_def)

text \<open>
  C4, as the code has it. Whenever the allocator refuses a request that \<^verbatim>\<open>trackObject\<close>
  makes (either \<^verbatim>\<open>malloc\<close> of \<^verbatim>\<open>initAllocVector\<close>, or the \<^verbatim>\<open>realloc\<close> of a full vector), the
  call stores through the \<^verbatim>\<open>NULL\<close> result: undefined behaviour, and no result of any kind
  for the caller.
\<close>

theorem track_allocation_unchecked:
  assumes "request_refused ok s"
  shows "trackObject ok obj s = Inl NullDereference"
proof (cases "needs_init s")
  case True
  with assms show ?thesis
    by (simp add: request_refused_def trackObject_init_refused)
next
  case False
  with assms obtain av where av: "allocVector s = Some av" "used av = size' av"
    "\<not> ok (requests s)"
    by (auto simp add: request_refused_def split: option.splits)
  with False obtain xs where "vector av = Some xs"
    by (auto simp add: needs_init_def)
  with av show ?thesis by (simp add: trackObject_full_refused)
qed

theorem track_allocation_unchecked_witness:
  "request_refused refused
     \<lparr>allocVector = Some \<lparr>vector = Some (replicate 128 (Some 7)), used = 128, size' = 128\<rparr>,
      requests = 2, trace = [Malloc 24, Malloc 1024]\<rparr> \<and>
   trackObject refused 9
     \<lparr>allocVector = Some \<lparr>vector = Some (replicate 128 (Some 7)), used = 128, size' = 128\<rparr>,
      requests = 2, trace = [Malloc 24, Malloc 1024]\<rparr> = Inl NullDereference"
proof -
  let ?s = "\<lparr>allocVector = Some \<lparr>vector = Some (replicate 128 (Some 7)), used = 128, size' = 128\<rparr>,
      requests = 2, trace = [Malloc 24, Malloc 1024]\<rparr>"
  have h: "request_refused refused ?s"
    by (simp add: request_refused_def needs_init_def refused_def)
  from track_allocation_unchecked [OF h, of 9] h show ?thesis by simp
qed

subsection \<open>The invariant\<close>

text \<open>
  C8. The invariant \<open>0 \<le> used \<le> size\<close> (\<open>within_capacity\<close>; vacuous while there is
  no tracker) holds at program start and in the state \<^verbatim>\<open>initAllocVector\<close> returns;
  every \<^verbatim>\<open>trackObject\<close> that returns preserves it, from any state that satisfies it and
  whatever the allocator answers; every \<^verbatim>\<open>freeObjects\<close> that returns establishes it. So
  it holds in every state that a sequence of \<^verbatim>\<open>trackObject\<close> and \<^verbatim>\<open>freeObjects\<close> calls
  reaches from program start.
\<close>

theorem used_within_capacity:
  "within_capacity initial \<and>
   (\<forall>s'. initAllocVector ok s = Inr s' \<longrightarrow> within_capacity s') \<and>
   (\<forall>s'. within_capacity s \<and> trackObject ok obj s = Inr s' \<longrightarrow> within_capacity s') \<and>
   (\<forall>s'. freeObjects s = Inr s' \<longrightarrow> within_capacity s') \<and>
   (\<forall>s'. run ok cs initial = Inr s' \<longrightarrow> within_capacity s')"
proof (intro conjI allI impI)
  show i: "within_capacity initial" by (simp add: within_capacity_def initial_def)
  show "within_capacity s'" if "initAllocVector ok s = Inr s'" for s'
    using initAllocVector_result [OF that] by (auto simp add: within_capacity_def)
  show "within_capacity s'" if "within_capacity s \<and> trackObject ok obj s = Inr s'" for s'
    using that trackObject_within_capacity by blast
  show "within_capacity s'" if "freeObjects s = Inr s'" for s'
    using freeObjects_tears_down [OF that] by (simp add: within_capacity_def)
  show "within_capacity s'" if "run ok cs initial = Inr s'" for s'
    using i that by (rule run_within_capacity)
qed

theorem used_within_capacity_witness:
  "run granted [Track 5, ReleaseAll, Track 6, Track 7] initial =
     Inr \<lparr>allocVector = Some \<lparr>vector = Some (Some 6 # Some 7 # replicate 126 None),
                               used = 2, size' = 128\<rparr>,
          requests = 4,
          trace = [Malloc 24, Malloc 1024, Free 5, SlotNull 0, FreeVector, VectorNull,
                   FreeAllocVector, AllocVectorNull, Malloc 24, Malloc 1024]\<rparr> \<and>
   within_capacity
     \<lparr>allocVector = Some \<lparr>vector = Some (Some 6 # Some 7 # replicate 126 None),
                          used = 2, size' = 128\<rparr>,
      requests = 4,
      trace = [Malloc 24, Malloc 1024, Free 5, SlotNull 0, FreeVector, VectorNull,
               FreeAllocVector, AllocVectorNull, Malloc 24, Malloc 1024]\<rparr> \<and>
   used \<lparr>vector = Some (Some 6 # Some 7 # replicate 126 None), used = 2, size' = 128\<rparr>
     \<le> size' \<lparr>vector = Some (Some 6 # Some 7 # replicate 126 None), used = 2, size' = 128\<rparr>"
proof -
  let ?av = "\<lparr>vector = Some (Some 6 # Some 7 # replicate 126 None), used = 2, size' = 128\<rparr>"
  let ?s = "\<lparr>allocVector = Some ?av, requests = 4,
          trace = [Malloc 24, Malloc 1024, Free 5, SlotNull 0, FreeVector, VectorNull,
                   FreeAllocVector, AllocVectorNull, Malloc 24, Malloc 1024]\<rparr>"
  have r: "replicate 127 None = (None :: nat option) # replicate 126 None"
    using replicate_Suc [of 126 "None :: nat option"] by simp
  have h: "run granted [Track 5, ReleaseAll, Track 6, Track 7] initial = Inr ?s"
    by (simp add: step_def trackObject_def needs_init_def initAllocVector_def malloc_def
        store_def new_block_def to_size_t_def SIZE_MAX_def sizeof_ptr_def sizeof_AllocVector_def
        granted_def initial_def freeObjects_def free_loop.simps INT_MAX_def fresh_slots r)
  from used_within_capacity [of granted _ _ "[Track 5, ReleaseAll, Track 6, Track 7]"] h
  have w: "within_capacity ?s" by blast
  then have "used ?av \<le> size' ?av" by (simp add: within_capacity_def)
  with h w show ?thesis by (intro conjI)
qed

subsection \<open>The null handle\<close>

text \<open>
  C10. \<^verbatim>\<open>trackObject\<close> does not test its argument. Wherever a call with some handle
  returns, the call with \<^verbatim>\<open>NULL\<close> returns too, with the same trace and request count:
  \<^verbatim>\<open>NULL\<close> is stored in slot \<open>used\<close> and counted. A following \<^verbatim>\<open>freeObjects\<close> does what it
  would have done with the other handle in that slot: if that call is undefined, so is
  this one, in the same way; otherwise it returns, and the handles passed to \<^verbatim>\<open>free\<close>
  are the registered ones in order, the \<^verbatim>\<open>NULL\<close> last.
\<close>

theorem null_handle_is_tracked:
  assumes "well_formed s" "registered s = map Some hs" "trackObject ok obj s = Inr s1"
  shows "\<exists>s0 av0. trackObject ok NULL s = Inr s0 \<and> allocVector s0 = Some av0 \<and>
           used av0 = length hs + 1 \<and> registered s0 = map Some (hs @ [NULL]) \<and>
           trace s0 = trace s1 \<and> requests s0 = requests s1 \<and>
           (case freeObjects s1 of
              Inl u \<Rightarrow> freeObjects s0 = Inl u
            | Inr s3 \<Rightarrow>
                (\<exists>s2. freeObjects s0 = Inr s2 \<and>
                      released (trace s2) = released (trace s0) @ hs @ [NULL]))"
proof -
  from assms(1,3)
  have "\<exists>s0. trackObject ok NULL s = Inr s0 \<and> trace s0 = trace s1 \<and> requests s0 = requests s1"
  proof (cases rule: trackObject_cases)
    case init
    then show ?thesis by (simp add: trackObject_init needs_init_def)
  next
    case (room av xs)
    from assms(1) room(1) obtain xs0 where "vector av = Some xs0" "length xs0 = size' av"
      "size' av * 8 \<le> SIZE_MAX"
      by (rule well_formed_active)
    moreover from this have "length xs0 \<le> SIZE_MAX" by linarith
    ultimately show ?thesis using room by (simp add: trackObject_room)
  next
    case (full av xs)
    from assms(1) full(1) obtain xs0 where "vector av = Some xs0" "length xs0 = size' av"
      "0 < size' av"
      by (rule well_formed_active)
    with full show ?thesis by (simp add: trackObject_full)
  qed
  then obtain s0 where s0: "trackObject ok NULL s = Inr s0"
    and same: "trace s0 = trace s1" "requests s0 = requests s1" by blast
  from trackObject_tracks [OF assms(1,2) s0]
  have wf0: "well_formed s0" and reg0: "registered s0 = map Some (hs @ [NULL])"
    and "allocVector s0 \<noteq> None" by simp_all
  then obtain av0 where av0: "allocVector s0 = Some av0" by auto
  have u0: "used av0 = length hs + 1"
    using well_formed_used [OF wf0 av0 reg0] by simp
  from trackObject_tracks [OF assms]
  have wf1: "well_formed s1" and reg1: "registered s1 = map Some (hs @ [obj])"
    and "allocVector s1 \<noteq> None" by simp_all
  then obtain av1 where av1: "allocVector s1 = Some av1" by auto
  have u1: "used av1 = length hs + 1"
    using well_formed_used [OF wf1 av1 reg1] by simp
  have "case freeObjects s1 of
          Inl u \<Rightarrow> freeObjects s0 = Inl u
        | Inr s3 \<Rightarrow>
            (\<exists>s2. freeObjects s0 = Inr s2 \<and>
                  released (trace s2) = released (trace s0) @ hs @ [NULL])"
  proof (cases "length hs + 1 \<le> INT_MAX")
    case True
    then have "length (hs @ [NULL]) \<le> INT_MAX" "length (hs @ [obj]) \<le> INT_MAX"
      by simp_all
    from freeObjects_active [OF wf0 av0 reg0 this(1)] freeObjects_active [OF wf1 av1 reg1 this(2)]
    show ?thesis by (simp add: released_append released_slot_events)
  next
    case False
    with u0 u1 have "INT_MAX < used av0" "INT_MAX < used av1" by simp_all
    from freeObjects_active_overflow [OF wf0 av0 this(1)]
      freeObjects_active_overflow [OF wf1 av1 this(2)]
    show ?thesis by simp
  qed
  with s0 av0 u0 reg0 same show ?thesis by blast
qed

theorem null_handle_is_tracked_witness:
  "well_formed \<lparr>allocVector = Some \<lparr>vector = Some (Some 7 # Some 8 # replicate 126 None),
                                      used = 2, size' = 128\<rparr>,
                requests = 2, trace = [Malloc 24, Malloc 1024]\<rparr> \<and>
   (\<exists>s1 s3 s0 av0 s2.
      trackObject granted 9
        \<lparr>allocVector = Some \<lparr>vector = Some (Some 7 # Some 8 # replicate 126 None),
                              used = 2, size' = 128\<rparr>,
         requests = 2, trace = [Malloc 24, Malloc 1024]\<rparr> = Inr s1 \<and>
      freeObjects s1 = Inr s3 \<and>
      trackObject granted NULL
        \<lparr>allocVector = Some \<lparr>vector = Some (Some 7 # Some 8 # replicate 126 None),
                              used = 2, size' = 128\<rparr>,
         requests = 2, trace = [Malloc 24, Malloc 1024]\<rparr> = Inr s0 \<and>
      allocVector s0 = Some av0 \<and> used av0 = 3 \<and>
      registered s0 = [Some 7, Some 8, Some NULL] \<and>
      freeObjects s0 = Inr s2 \<and> released (trace s2) = [7, 8, NULL])"
proof -
  let ?av = "\<lparr>vector = Some (Some 7 # Some 8 # replicate 126 None), used = 2, size' = 128\<rparr>"
  let ?s = "\<lparr>allocVector = Some ?av, requests = 2, trace = [Malloc 24, Malloc 1024]\<rparr>"
  let ?s1 = "?s\<lparr>allocVector := Some (?av\<lparr>vector := Some ((Some 7 # Some 8 # replicate 126 None)[used ?av := Some 9]),
                                           used := used ?av + 1\<rparr>)\<rparr>"
  have wf: "well_formed ?s"
    by (simp add: well_formed_def sizeof_ptr_def SIZE_MAX_def)
  have reg: "registered ?s = map Some [7, 8]"
    by (simp add: registered_def)
  have t1: "trackObject granted 9 ?s = Inr ?s1"
    by (intro trackObject_room) (simp_all add: SIZE_MAX_def)
  have wf1: "well_formed ?s1" and reg1: "registered ?s1 = map Some ([7, 8] @ [9])"
    using trackObject_tracks [OF wf reg t1] by simp_all
  have av1: "allocVector ?s1 = Some (?av\<lparr>vector := Some ((Some 7 # Some 8 # replicate 126 None)[used ?av := Some 9]),
                                           used := used ?av + 1\<rparr>)" by simp
  have "length ([7, 8] @ [9 :: nat]) \<le> INT_MAX" by (simp add: INT_MAX_def)
  from freeObjects_active [OF wf1 av1 reg1 this]
  obtain s3 where f1: "freeObjects ?s1 = Inr s3" by blast
  from null_handle_is_tracked [OF wf reg t1] f1
  obtain s0 av0 s2 where "trackObject granted NULL ?s = Inr s0" "allocVector s0 = Some av0"
    "used av0 = 3" "registered s0 = [Some 7, Some 8, Some NULL]" "trace s0 = trace ?s1"
    "freeObjects s0 = Inr s2" "released (trace s2) = released (trace s0) @ [7, 8, NULL]"
    by auto
  with t1 f1 have "\<exists>s1 s3 s0 av0 s2. trackObject granted 9 ?s = Inr s1 \<and>
      freeObjects s1 = Inr s3 \<and> trackObject granted NULL ?s = Inr s0 \<and>
      allocVector s0 = Some av0 \<and> used av0 = 3 \<and>
      registered s0 = [Some 7, Some 8, Some NULL] \<and>
      freeObjects s0 = Inr s2 \<and> released (trace s2) = [7, 8, NULL]"
    by (intro exI [of _ ?s1] exI [of _ s3] exI [of _ s0] exI [of _ av0] exI [of _ s2]) simp
  with wf show ?thesis by simp
qed

end
